theory Spec2Isabelle
  imports Main "HOL-Library.Multiset"
begin

section \<open>ReadonlyNonEmptyArray: a shallow embedding\<close>

text \<open>
  A \<^verbatim>\<open>ReadonlyArray<A>\<close> is an \<open>'a list\<close>. A \<^verbatim>\<open>ReadonlyNonEmptyArray<A>\<close> is the same
  value with the static guarantee that index 0 exists; the theorems carry that guarantee
  as the hypothesis \<open>as \<noteq> []\<close>. Reading \<^verbatim>\<open>as[i]\<close> is \<open>as ! i\<close>: outside the array the
  source reads \<^verbatim>\<open>undefined\<close>, and HOL says nothing about the value there.
\<close>

subsection \<open>Capability descriptors consumed by the module\<close>

text \<open>
  Modelled from the spec: the interfaces \<^verbatim>\<open>Eq\<close>, \<^verbatim>\<open>Ord\<close> and \<^verbatim>\<open>Semigroup\<close> are declared
  in modules of their own, which are not among the sources; they are descriptors the
  caller supplies (an equality predicate, a comparator with three outcomes, a binary
  combine), here records of functions. The functions are curried and data-last: the
  source calls \<^verbatim>\<open>E.equals(h)(a)\<close>, \<^verbatim>\<open>O.compare(second)(first)\<close> and \<^verbatim>\<open>S.concat(f(a))(s)\<close>,
  and its own instances are written \<^verbatim>\<open>(second) => (first) => ...\<close> (\<^verbatim>\<open>getEq\<close>, and
  \<^verbatim>\<open>getSemigroup\<close> whose \<^verbatim>\<open>concat\<close> is \<^verbatim>\<open>concatW\<close>, that is \<^verbatim>\<open>first.concat(second)\<close>). The
  first argument is therefore the second operand, and \<^verbatim>\<open>O.compare(second)(first)\<close> is
  negative when \<open>first\<close> is the smaller one: the documented example of \<^verbatim>\<open>groupSort\<close>,
  which sends \<open>[1, 2, 1, 1]\<close> to \<open>[[1, 1, 1], [2]]\<close>, holds under this reading only. The
  outcome of a comparison is one of the numbers -1, 0, 1, which the source hands to the
  host's sort as they are.
\<close>

record 'a Eq =
  equals :: "'a \<Rightarrow> 'a \<Rightarrow> bool"


record 'a Semigroup =
  concatS :: "'a \<Rightarrow> 'a \<Rightarrow> 'a"

text \<open>Modelled from the spec: a lazily supplied value, \<^verbatim>\<open>Lazy<A>\<close> of the module
  \<^verbatim>\<open>function\<close>, is a thunk \<^verbatim>\<open>() => A\<close>. Calling it may have effects, so it is a computation
  over a state of the caller's choosing.\<close>

type_synonym ('s, 'a) Lazy = "'s \<Rightarrow> 'a \<times> 's"

subsection \<open>Element values\<close>

text \<open>
  Two host operations that the module relies on single out element values:
  \<^verbatim>\<open>NaN === NaN\<close> is false, and the host's sort moves \<^verbatim>\<open>undefined\<close> to the end without
  comparing it. Where that matters (\<^verbatim>\<open>modifyAt\<close>, \<^verbatim>\<open>sort\<close>) an element is \<^verbatim>\<open>undefined\<close>,
  \<^verbatim>\<open>NaN\<close> or another value. \<open>Val\<close> embeds the other values so that \<^verbatim>\<open>===\<close> on them is
  equality: a primitive by its value, an object by its reference.
\<close>

datatype 'a js = Undefined | NaN | Val 'a

definition strict_eq :: "'a js \<Rightarrow> 'a js \<Rightarrow> bool" where
  "strict_eq x y \<longleftrightarrow> x = y \<and> x \<noteq> NaN"

subsection \<open>Host array operations\<close>

text \<open>\<^verbatim>\<open>Array.prototype.slice(start, end)\<close>: a negative bound counts from the end, and
  both bounds are clamped to the array.\<close>

definition slice :: "int \<Rightarrow> int \<Rightarrow> 'a list \<Rightarrow> 'a list" where
  "slice start fin as =
     (let len = int (length as);
          k = (if start < 0 then max (len + start) 0 else min start len);
          final = (if fin < 0 then max (len + fin) 0 else min fin len)
      in take (nat (final - k)) (drop (nat k) as))"

text \<open>\<^verbatim>\<open>slice(start)\<close>, the end bound left out, runs to the end of the array.\<close>

definition slice_from :: "int \<Rightarrow> 'a list \<Rightarrow> 'a list" where
  "slice_from start as = slice start (int (length as)) as"

text \<open>The assignment \<^verbatim>\<open>xs[i] = v\<close> on a mutable array: inside the array it overwrites,
  beyond it the array is extended and the skipped positions read \<^verbatim>\<open>undefined\<close>.\<close>

definition assign :: "'a list \<Rightarrow> nat \<Rightarrow> 'a \<Rightarrow> 'a list" where
  "assign xs i v =
     (if i < length xs then xs[i := v]
      else xs @ replicate (i - length xs) undefined @ [v])"

text \<open>\<^verbatim>\<open>for (let i = i0; i < n; i++) body\<close>, threading the variables the body mutates.\<close>

function for_loop :: "nat \<Rightarrow> nat \<Rightarrow> (nat \<Rightarrow> 's \<Rightarrow> 's) \<Rightarrow> 's \<Rightarrow> 's" where
  "for_loop i n body s = (if i < n then for_loop (i + 1) n body (body i s) else s)"
  by pat_completeness auto
termination
  by (relation "measure (\<lambda>(i, n, body, s). n - i)") auto

declare for_loop.simps [simp del]

text \<open>\<^verbatim>\<open>Array.prototype.reduce(callback, initial)\<close> is a left fold. Without an initial
  value the first element starts the fold, and an empty array raises a TypeError.\<close>

datatype error = TypeError

definition reduce_from :: "('b \<Rightarrow> 'a \<Rightarrow> 'b) \<Rightarrow> 'b \<Rightarrow> 'a list \<Rightarrow> 'b" where
  "reduce_from callback initial xs = foldl callback initial xs"

definition reduce1 :: "('a \<Rightarrow> 'a \<Rightarrow> 'a) \<Rightarrow> 'a list \<Rightarrow> error + 'a" where
  "reduce1 callback xs =
     (case xs of [] \<Rightarrow> Inl TypeError | x # rest \<Rightarrow> Inr (foldl callback x rest))"





text \<open>Where the source returns either the array it was given or a newly built one, the
  result records which: \<open>Same\<close> is the argument's own reference, \<open>Fresh\<close> a new array.\<close>

datatype 'a returned = Same 'a | Fresh 'a

fun array_of :: "'a returned \<Rightarrow> 'a" where
  "array_of (Same as) = as"
| "array_of (Fresh as) = as"

text \<open>Modelled from the spec: \<^verbatim>\<open>NEA.fromReadonlyNonEmptyArray\<close> belongs to the module
  \<^verbatim>\<open>NonEmptyArray\<close>, which is not among the sources. Changes are made copy-on-write: it
  hands back a new, mutable array with the same elements.\<close>

definition fromReadonlyNonEmptyArray :: "'a list \<Rightarrow> 'a list" where
  "fromReadonlyNonEmptyArray as = as"

subsection \<open>Internal helpers and accessors\<close>

definition empty' :: "'a list" where
  "empty' = []"

definition prepend :: "'a \<Rightarrow> 'a list \<Rightarrow> 'a list" where
  "prepend head tail = head # tail"

definition isNonEmpty :: "'a list \<Rightarrow> bool" where
  "isNonEmpty as \<longleftrightarrow> length as > 0"

definition concatW :: "'a list \<Rightarrow> 'a list \<Rightarrow> 'a list" where
  "concatW second first = first @ second"

definition extract' :: "'a list \<Rightarrow> 'a" where
  "extract' as = as ! 0"

definition head :: "'a list \<Rightarrow> 'a" where
  "head = extract'"

text \<open>Modelled from the spec: \<^verbatim>\<open>tuple\<close> of the module \<^verbatim>\<open>function\<close> (not among the sources)
  builds the pair that \<^verbatim>\<open>zip\<close> is declared to return.\<close>

definition tuple :: "'a \<Rightarrow> 'b \<Rightarrow> 'a \<times> 'b" where
  "tuple a b = (a, b)"

definition getSemigroup :: "'a list Semigroup" where
  "getSemigroup = \<lparr>concatS = concatW\<rparr>"

subsection \<open>chop, group, splitAt, chunksOf\<close>

text \<open>The \<^verbatim>\<open>while (isNonEmpty(next))\<close> loop of \<^verbatim>\<open>chop\<close>. Nothing in the source bounds it:
  with a step function that does not consume its input it never returns, which is the
  value \<open>None\<close>.\<close>

partial_function (option) chop_while ::
  "('a list \<Rightarrow> 'b \<times> 'a list) \<Rightarrow> 'a list \<Rightarrow> 'b list \<Rightarrow> 'b list option" where
  "chop_while f next out =
     (if isNonEmpty next
      then chop_while f (snd (f next)) (out @ [fst (f next)])
      else Some out)"

definition chop :: "('a list \<Rightarrow> 'b \<times> 'a list) \<Rightarrow> 'a list \<Rightarrow> 'b list option" where
  "chop f as = (case f as of (b, rest) \<Rightarrow> chop_while f rest [b])"

text \<open>The loop of \<^verbatim>\<open>group\<close>'s step function: it leaves at the first element that is not
  equal to \<open>h\<close> (\<^verbatim>\<open>break\<close>) or at the end of the array, and the index is read afterwards.\<close>

function group_for :: "'a Eq \<Rightarrow> 'a \<Rightarrow> 'a list \<Rightarrow> nat \<Rightarrow> 'a list \<Rightarrow> nat \<times> 'a list" where
  "group_for E h as i out =
     (if i < length as
      then (let a = as ! i in
            if equals E h a then group_for E h as (i + 1) (out @ [a]) else (i, out))
      else (i, out))"
  by pat_completeness auto
termination
  by (relation "measure (\<lambda>(E, h, as, i, out). length as - i)") auto

declare group_for.simps [simp del]

definition group_step :: "'a Eq \<Rightarrow> 'a list \<Rightarrow> 'a list \<times> 'a list" where
  "group_step E as =
     (let h = head as in
      case group_for E h as 1 [h] of (i, out) \<Rightarrow> (out, slice_from (int i) as))"

definition group' :: "'a Eq \<Rightarrow> 'a list \<Rightarrow> 'a list list option" where
  "group' E as = chop (group_step E) as"

definition splitAt :: "int \<Rightarrow> 'a list \<Rightarrow> 'a list \<times> 'a list" where
  "splitAt n as =
     (if n < 1 \<or> n > int (length as) then (as, empty')
      else (prepend (head as) (slice 1 n as), slice_from n as))"

definition chunksOf :: "int \<Rightarrow> 'a list \<Rightarrow> 'a list list option" where
  "chunksOf n = chop (splitAt n)"

subsection \<open>sort, modifyAt\<close>


definition isOutOfBound :: "int \<Rightarrow> 'a list \<Rightarrow> bool" where
  "isOutOfBound i as \<longleftrightarrow> i < 0 \<or> i \<ge> int (length as)"

definition modifyAt ::
  "int \<Rightarrow> ('a js \<Rightarrow> 'a js) \<Rightarrow> 'a js list \<Rightarrow> 'a js list returned option" where
  "modifyAt i f as =
     (if isOutOfBound i as then None
      else (let prev = as ! nat i; next = f prev in
            if strict_eq next prev then Some (Same as)
            else Some (Fresh (assign (fromReadonlyNonEmptyArray as) (nat i) next))))"

subsection \<open>zipWith, zip, unzip\<close>

definition zipWith :: "'b list \<Rightarrow> ('a \<Rightarrow> 'b \<Rightarrow> 'c) \<Rightarrow> 'a list \<Rightarrow> 'c list" where
  "zipWith bs f as =
     (let cs = [f (as ! 0) (bs ! 0)];
          len = min (length as) (length bs)
      in for_loop 1 len (\<lambda>i cs. assign cs i (f (as ! i) (bs ! i))) cs)"

definition zip' :: "'b list \<Rightarrow> 'a list \<Rightarrow> ('a \<times> 'b) list" where
  "zip' bs as = zipWith bs tuple as"

definition unzip :: "('a \<times> 'b) list \<Rightarrow> 'a list \<times> 'b list" where
  "unzip abs' =
     (let fa = [fst (abs' ! 0)];
          fb = [snd (abs' ! 0)]
      in for_loop 1 (length abs')
           (\<lambda>i (fa, fb). (assign fa i (fst (abs' ! i)), assign fb i (snd (abs' ! i))))
           (fa, fb))"

subsection \<open>foldMap, chainWithIndex, alt, of, chain, concatAll\<close>

definition foldMap :: "'s Semigroup \<Rightarrow> ('a \<Rightarrow> 's) \<Rightarrow> 'a list \<Rightarrow> 's" where
  "foldMap S f fa =
     reduce_from (\<lambda>s a. concatS S (f a) s) (f (fa ! 0)) (slice_from 1 fa)"

definition chainWithIndex :: "(nat \<Rightarrow> 'a \<Rightarrow> 'b list) \<Rightarrow> 'a list \<Rightarrow> 'b list" where
  "chainWithIndex f as =
     (let out = fromReadonlyNonEmptyArray (f 0 (head as))
      in for_loop 1 (length as) (\<lambda>i out. out @ f i (as ! i)) out)"

text \<open>\<^verbatim>\<open>altW\<close> calls the thunk when it is given it, before any \<open>first\<close> arrives, and
  returns the concatenating function.\<close>

definition altW :: "('s, 'a list) Lazy \<Rightarrow> 's \<Rightarrow> ('a list \<Rightarrow> 'a list) \<times> 's" where
  "altW second s = (case second s of (bs, s') \<Rightarrow> (concatW bs, s'))"

definition alt :: "('s, 'a list) Lazy \<Rightarrow> 's \<Rightarrow> ('a list \<Rightarrow> 'a list) \<times> 's" where
  "alt = altW"

definition of' :: "'a \<Rightarrow> 'a list" where
  "of' a = [a]"

definition chain' :: "('a \<Rightarrow> 'b list) \<Rightarrow> 'a list \<Rightarrow> 'b list" where
  "chain' f = chainWithIndex (\<lambda>_ a. f a)"

definition concatAll :: "'a Semigroup \<Rightarrow> 'a list \<Rightarrow> error + 'a" where
  "concatAll S fa = reduce1 (\<lambda>a acc. concatS S acc a) fa"

section \<open>Notions used to state the properties\<close>

text \<open>The input of the \<open>k\<close>-th application of a step function \<open>f\<close> when \<^verbatim>\<open>chop(f)\<close>
  starts from \<open>as\<close>: each application is given what the one before left over.\<close>

primrec remaining :: "('a list \<Rightarrow> 'b \<times> 'a list) \<Rightarrow> nat \<Rightarrow> 'a list \<Rightarrow> 'a list" where
  "remaining f 0 as = as"
| "remaining f (Suc k) as = remaining f k (snd (f as))"

text \<open>Modelled from the spec: equality by value on numbers, \<^verbatim>\<open>N.Eq\<close> of the module
  \<^verbatim>\<open>number\<close> (not among the sources) that the documented example of \<^verbatim>\<open>group\<close> uses, taken
  on integers.\<close>

definition eqNumber :: "int Eq" where
  "eqNumber = \<lparr>equals = (\<lambda>second first. first = second)\<rparr>"






text \<open>\<open>combine S first second\<close>: \<open>first\<close> combined with \<open>second\<close>, which the source writes
  \<^verbatim>\<open>S.concat(second)(first)\<close>; for the module's own \<^verbatim>\<open>getSemigroup\<close> it is
  \<open>first @ second\<close>.\<close>

definition combine :: "'a Semigroup \<Rightarrow> 'a \<Rightarrow> 'a \<Rightarrow> 'a" where
  "combine S first second = concatS S second first"

section \<open>Facts about the host operations\<close>

lemma slice_from_drop: "0 \<le> k \<Longrightarrow> slice_from k as = drop (nat k) as"
  by (auto simp: slice_from_def slice_def Let_def min_def)

lemma head_hd: "as \<noteq> [] \<Longrightarrow> head as = hd as"
  by (simp add: head_def extract'_def hd_conv_nth)

lemma for_loop_fold: "for_loop i n body s = fold body [i..<n] s"
proof (induction i n body s rule: for_loop.induct)
  case (1 i n body s)
  show ?case
  proof (cases "i < n")
    case True
    with 1 show ?thesis
      by (subst for_loop.simps) (simp add: upt_conv_Cons)
  next
    case False
    then show ?thesis
      by (subst for_loop.simps) simp
  qed
qed

lemma isNonEmpty_iff: "isNonEmpty xs \<longleftrightarrow> xs \<noteq> []"
  by (simp add: isNonEmpty_def)

lemma assign_in_range: "i < length xs \<Longrightarrow> assign xs i v = xs[i := v]"
  by (simp add: assign_def)

lemma assign_at_end: "assign xs (length xs) v = xs @ [v]"
  by (simp add: assign_def)

text \<open>A loop that assigns position \<open>k\<close> at iteration \<open>k\<close>, starting with an array of length
  \<open>i\<close>, only ever appends.\<close>

lemma fold_assign:
  "length cs = i \<Longrightarrow> i \<le> n \<Longrightarrow>
   fold (\<lambda>k cs. assign cs k (g k)) [i..<n] cs = cs @ map g [i..<n]"
proof (induction n)
  case 0
  then show ?case by simp
next
  case (Suc n)
  show ?case
  proof (cases "i \<le> n")
    case True
    with Suc have "fold (\<lambda>k cs. assign cs k (g k)) [i..<n] cs = cs @ map g [i..<n]"
      by simp
    moreover from True Suc.prems have "length (cs @ map g [i..<n]) = n"
      by simp
    ultimately show ?thesis
      using True assign_at_end[of "cs @ map g [i..<n]" "g n"] by simp
  next
    case False
    with Suc.prems have "i = Suc n" by simp
    then show ?thesis by simp
  qed
qed

lemma fold_pair:
  "fold (\<lambda>k (a, b). (p k a, q k b)) ks (a, b) = (fold p ks a, fold q ks b)"
  by (induction ks arbitrary: a b) simp_all

lemma fold_append_out:
  "fold (\<lambda>k out. out @ g k) ks out = out @ concat (map g ks)"
  by (induction ks arbitrary: out) simp_all

lemma map_from_0: "0 < n \<Longrightarrow> g 0 # map g [1..<n] = map g [0..<n]"
  by (simp add: upt_conv_Cons)

section \<open>chop\<close>

lemma chop_as_while: "as \<noteq> [] \<Longrightarrow> chop f as = chop_while f as []"
  by (subst chop_while.simps) (simp add: chop_def isNonEmpty_iff split: prod.split)

lemma map_upt_Suc_shift: "map g [0..<Suc n] = g 0 # map (\<lambda>k. g (Suc k)) [0..<n]"
  by (simp only: map_upt_Suc)

text \<open>With a step function that shortens every non-empty input, the loop returns: by
  induction on the length of what is left.\<close>

lemma chop_while_runs:
  assumes shrinks: "\<forall>xs. xs \<noteq> [] \<longrightarrow> length (snd (f xs)) < length xs"
  shows "\<exists>n \<le> length next. chop_while f next out =
           Some (out @ map (\<lambda>k. fst (f (remaining f k next))) [0..<n]) \<and>
         (\<forall>k<n. remaining f k next \<noteq> []) \<and> remaining f n next = []"
proof (induction "length next" arbitrary: "next" out rule: less_induct)
  case less
  show ?case
  proof (cases "next = []")
    case True
    then have "chop_while f next out = Some out"
      by (subst chop_while.simps) (simp add: isNonEmpty_iff)
    with True show ?thesis
      by (intro exI[of _ 0]) simp
  next
    case False
    let ?rest = "snd (f next)"
    from False shrinks have shorter: "length ?rest < length next"
      by simp
    from less[OF this, of "out @ [fst (f next)]"] obtain n where
      n: "n \<le> length ?rest"
      "chop_while f ?rest (out @ [fst (f next)]) =
         Some ((out @ [fst (f next)]) @ map (\<lambda>k. fst (f (remaining f k ?rest))) [0..<n])"
      "\<forall>k<n. remaining f k ?rest \<noteq> []" "remaining f n ?rest = []"
      by blast
    have run: "chop_while f next out = chop_while f ?rest (out @ [fst (f next)])"
      using False by (subst chop_while.simps) (simp add: isNonEmpty_iff)
    have "chop_while f next out =
        Some (out @ map (\<lambda>k. fst (f (remaining f k next))) [0..<Suc n])"
      unfolding run n(2) map_upt_Suc_shift[of _ n] by simp
    moreover have "\<forall>k<Suc n. remaining f k next \<noteq> []"
    proof (intro allI impI)
      fix k assume "k < Suc n"
      then show "remaining f k next \<noteq> []"
        using False n(3) by (cases k) simp_all
    qed
    moreover have "remaining f (Suc n) next = []"
      using n(4) by simp
    moreover have "Suc n \<le> length next"
      using n(1) shorter by simp
    ultimately show ?thesis
      by blast
  qed
qed

lemma splitAt_consumes:
  "1 \<le> n \<Longrightarrow> xs \<noteq> [] \<Longrightarrow> length (snd (splitAt n xs)) < length xs"
  by (cases xs) (auto simp: splitAt_def empty'_def slice_from_drop)

text \<open>
  \<^bold>\<open>C1.\<close> Let \<open>f\<close> be a step function whose remainder is strictly shorter than the
  non-empty sequence it was given, and let \<open>as\<close> be non-empty. Then \<^verbatim>\<open>chop(f)(as)\<close>
  returns (the loop's result is \<open>Some out\<close>, not \<open>None\<close>), \<open>out\<close> is non-empty, and \<open>out\<close>
  lists, in order, the value of \<open>f\<close> at \<open>as\<close>, at what that application left over, and so
  on, up to the application that leaves nothing; there are at most \<open>length as\<close> of them.
\<close>

theorem chop_terminates:
  assumes "\<forall>xs. xs \<noteq> [] \<longrightarrow> length (snd (f xs)) < length xs" and "as \<noteq> []"
  shows "\<exists>n out. chop f as = Some out \<and> out \<noteq> [] \<and> length out = n \<and> n \<le> length as \<and>
           out = map (\<lambda>k. fst (f (remaining f k as))) [0..<n] \<and>
           (\<forall>k<n. remaining f k as \<noteq> []) \<and> remaining f n as = []"
proof -
  from chop_while_runs[OF assms(1), of as "[]"] obtain n where
    n: "n \<le> length as"
    "chop_while f as [] = Some ([] @ map (\<lambda>k. fst (f (remaining f k as))) [0..<n])"
    "\<forall>k<n. remaining f k as \<noteq> []" "remaining f n as = []"
    by blast
  from n(4) assms(2) have "n \<noteq> 0"
    by (cases n) simp_all
  with n show ?thesis
    by (simp add: chop_as_while[OF assms(2)])
qed

theorem chop_terminates_witness:
  "chop (splitAt 2) [1, 2, 3, 4, 5 :: int] = Some [[1, 2], [3, 4], [5]] \<and>
   (\<exists>n out. chop (splitAt 2) [1, 2, 3, 4, 5 :: int] = Some out \<and> out \<noteq> [] \<and>
      length out = n \<and> n \<le> length [1, 2, 3, 4, 5 :: int] \<and>
      out = map (\<lambda>k. fst (splitAt 2 (remaining (splitAt 2) k [1, 2, 3, 4, 5 :: int]))) [0..<n] \<and>
      (\<forall>k<n. remaining (splitAt 2) k [1, 2, 3, 4, 5 :: int] \<noteq> []) \<and>
      remaining (splitAt 2) n [1, 2, 3, 4, 5 :: int] = [])"
proof
  show "chop (splitAt 2) [1, 2, 3, 4, 5 :: int] = Some [[1, 2], [3, 4], [5]]"
    by (simp add: chop_def chop_while.simps isNonEmpty_def splitAt_def slice_def slice_from_def
        prepend_def head_def extract'_def empty'_def)
  have "\<forall>xs :: int list. xs \<noteq> [] \<longrightarrow> length (snd (splitAt 2 xs)) < length xs"
    by (simp add: splitAt_consumes)
  then show "\<exists>n out. chop (splitAt 2) [1, 2, 3, 4, 5 :: int] = Some out \<and> out \<noteq> [] \<and>
      length out = n \<and> n \<le> length [1, 2, 3, 4, 5 :: int] \<and>
      out = map (\<lambda>k. fst (splitAt 2 (remaining (splitAt 2) k [1, 2, 3, 4, 5 :: int]))) [0..<n] \<and>
      (\<forall>k<n. remaining (splitAt 2) k [1, 2, 3, 4, 5 :: int] \<noteq> []) \<and>
      remaining (splitAt 2) n [1, 2, 3, 4, 5 :: int] = []"
    by (rule chop_terminates) simp
qed

section \<open>splitAt and chunksOf out of range\<close>

text \<open>
  \<^bold>\<open>C8.\<close> For a non-empty sequence \<open>as\<close> and \<open>n < 1\<close> or \<open>n > length as\<close>, \<^verbatim>\<open>splitAt(n)(as)\<close> is
  the whole input as the prefix with an empty suffix, and \<^verbatim>\<open>chunksOf(n)(as)\<close> returns
  (it is \<open>Some\<close>, no failure and no endless loop) the input unchanged as its only chunk:
  the result of \<^verbatim>\<open>chunksOf\<close> is a sequence of chunks, so the unchanged input is the
  one-chunk sequence \<open>[as]\<close>.
\<close>

theorem splitAt_chunksOf_out_of_range:
  assumes "as \<noteq> []" and "n < 1 \<or> n > int (length as)"
  shows "splitAt n as = (as, []) \<and> chunksOf n as = Some [as]"
proof -
  from assms(2) have whole: "splitAt n as = (as, [])"
    by (simp add: splitAt_def empty'_def)
  have "chop_while (splitAt n) [] [as] = Some [as]"
    by (subst chop_while.simps) (simp add: isNonEmpty_def)
  with whole show ?thesis
    by (simp add: chunksOf_def chop_def)
qed

theorem splitAt_chunksOf_out_of_range_witness:
  "splitAt 0 [1, 2, 3 :: int] = ([1, 2, 3], []) \<and> chunksOf 0 [1, 2, 3 :: int] = Some [[1, 2, 3]] \<and>
   splitAt 4 [1, 2, 3 :: int] = ([1, 2, 3], []) \<and> chunksOf 4 [1, 2, 3 :: int] = Some [[1, 2, 3]]"
  using splitAt_chunksOf_out_of_range[of "[1, 2, 3 :: int]" 0]
    splitAt_chunksOf_out_of_range[of "[1, 2, 3 :: int]" 4]
  by simp

section \<open>alt\<close>

text \<open>
  \<^bold>\<open>C7.\<close> \<^verbatim>\<open>alt(second)(first)\<close> is unconditional concatenation. Whatever \<open>first\<close> is, the
  result is \<open>first\<close> followed by the sequence the thunk \<open>second\<close> produced, its length is
  the sum of the two lengths, and the thunk has been run: the state after \<^verbatim>\<open>alt(second)\<close>
  is the state the thunk leaves, with no dependence on \<open>first\<close>.
\<close>

theorem alt_concatenates:
  "fst (alt second s) first = first @ fst (second s) \<and>
   snd (alt second s) = snd (second s) \<and>
   length (fst (alt second s) first) = length first + length (fst (second s))"
  by (simp add: alt_def altW_def concatW_def split: prod.split)

theorem alt_concatenates_witness:
  "fst (alt (\<lambda>calls :: nat. ([3, 4 :: int], calls + 1)) 0) [1, 2] = [1, 2, 3, 4] \<and>
   snd (alt (\<lambda>calls :: nat. ([3, 4 :: int], calls + 1)) 0) = 1"
  using alt_concatenates[of "\<lambda>calls :: nat. ([3, 4 :: int], calls + 1)" 0 "[1, 2]"]
  by simp

section \<open>group\<close>

lemma group_for_takeWhile:
  "i \<le> length as \<Longrightarrow>
   group_for E h as i out =
     (i + length (takeWhile (equals E h) (drop i as)), out @ takeWhile (equals E h) (drop i as))"
proof (induction E h as i out rule: group_for.induct)
  case (1 E h as i out)
  show ?case
  proof (cases "i < length as")
    case True
    then have d: "drop i as = as ! i # drop (Suc i) as"
      by (simp add: Cons_nth_drop_Suc)
    show ?thesis
    proof (cases "equals E h (as ! i)")
      case True
      with \<open>i < length as\<close> 1 show ?thesis
        by (subst group_for.simps) (simp add: d)
    next
      case False
      with \<open>i < length as\<close> show ?thesis
        by (subst group_for.simps) (simp add: d)
    qed
  next
    case False
    with 1(2) show ?thesis
      by (subst group_for.simps) simp
  qed
qed

text \<open>One step of \<^verbatim>\<open>group\<close> takes the head and the run of elements equal to it, and
  leaves the rest.\<close>

lemma group_step_runs:
  assumes "as \<noteq> []"
  shows "group_step E as =
    (hd as # takeWhile (equals E (hd as)) (tl as), dropWhile (equals E (hd as)) (tl as))"
proof -
  from assms have "1 \<le> length as"
    by (cases as) simp_all
  then show ?thesis
    using assms
    by (simp add: group_step_def Let_def head_hd group_for_takeWhile slice_from_drop
        dropWhile_eq_drop drop_Suc tl_drop)
qed

lemma group_while_runs:
  assumes refl: "\<forall>x. equals E x x"
  shows "\<exists>gs. chop_while (group_step E) next out = Some (out @ gs) \<and> concat gs = next \<and>
           (\<forall>g\<in>set gs. g \<noteq> [] \<and> (\<forall>x\<in>set g. equals E (hd g) x)) \<and>
           successively (\<lambda>g g'. \<not> equals E (hd g) (hd g')) gs \<and>
           (next \<noteq> [] \<longrightarrow> gs \<noteq> [] \<and> hd (hd gs) = hd next)"
proof (induction "length next" arbitrary: "next" out rule: less_induct)
  case less
  show ?case
  proof (cases "next = []")
    case True
    then have "chop_while (group_step E) next out = Some out"
      by (subst chop_while.simps) (simp add: isNonEmpty_iff)
    with True show ?thesis
      by (intro exI[of _ "[]"]) simp
  next
    case False
    let ?P = "equals E (hd next)"
    let ?g = "hd next # takeWhile ?P (tl next)"
    let ?rest = "dropWhile ?P (tl next)"
    have step: "group_step E next = (?g, ?rest)"
      using False by (rule group_step_runs)
    have "length ?rest \<le> length (tl next)"
      by (rule length_dropWhile_le)
    with False have "length ?rest < length next"
      by (cases "next") simp_all
    from less[OF this, of "out @ [?g]"] obtain gs where
      gs: "chop_while (group_step E) ?rest (out @ [?g]) = Some ((out @ [?g]) @ gs)"
      "concat gs = ?rest"
      "\<forall>g\<in>set gs. g \<noteq> [] \<and> (\<forall>x\<in>set g. equals E (hd g) x)"
      "successively (\<lambda>g g'. \<not> equals E (hd g) (hd g')) gs"
      "?rest \<noteq> [] \<longrightarrow> gs \<noteq> [] \<and> hd (hd gs) = hd ?rest"
      by blast
    have run: "chop_while (group_step E) next out = Some (out @ ?g # gs)"
      using False gs(1) by (subst chop_while.simps) (simp add: isNonEmpty_iff step)
    have cat: "concat (?g # gs) = next"
      using False gs(2) by (cases "next") simp_all
    have "\<forall>x\<in>set ?g. equals E (hd ?g) x"
      using refl by (auto dest: set_takeWhileD)
    with gs(3) have each: "\<forall>g\<in>set (?g # gs). g \<noteq> [] \<and> (\<forall>x\<in>set g. equals E (hd g) x)"
      by simp
    have adj: "successively (\<lambda>g g'. \<not> equals E (hd g) (hd g')) (?g # gs)"
    proof (cases "gs = []")
      case True
      then show ?thesis by simp
    next
      case False
      then obtain g gs' where "gs = g # gs'"
        by (cases gs) auto
      with gs(3) have "concat gs \<noteq> []"
        by simp
      with gs(2) have "?rest \<noteq> []"
        by simp
      with gs(5) have "hd (hd gs) = hd ?rest" and "\<not> ?P (hd ?rest)"
        by (simp_all add: hd_dropWhile)
      with gs(4) False show ?thesis
        by (simp add: successively_Cons)
    qed
    from run cat each adj show ?thesis
      by (intro exI[of _ "?g # gs"]) simp
  qed
qed

text \<open>
  \<^bold>\<open>C2.\<close> For a reflexive, symmetric and transitive equality \<open>E\<close> and a non-empty \<open>as\<close>,
  \<^verbatim>\<open>group(E)(as)\<close> returns groups \<open>gs\<close> such that: concatenating them in order gives \<open>as\<close>;
  every group is non-empty and any two of its elements are \<open>E\<close>-equal; and the first
  elements of two consecutive groups are not \<open>E\<close>-equal. With equality by value on
  numbers, \<open>[1, 2, 1, 1]\<close> is grouped into \<open>[[1], [2], [1, 1]]\<close>.
\<close>

theorem group_partitions:
  assumes "\<forall>x. equals E x x"
    and "\<forall>x y. equals E x y \<longrightarrow> equals E y x"
    and "\<forall>x y z. equals E x y \<longrightarrow> equals E y z \<longrightarrow> equals E x z"
    and "as \<noteq> []"
  shows "(\<exists>gs. group' E as = Some gs \<and> gs \<noteq> [] \<and> concat gs = as \<and>
            (\<forall>g\<in>set gs. g \<noteq> [] \<and> (\<forall>x\<in>set g. \<forall>y\<in>set g. equals E x y)) \<and>
            (\<forall>k. Suc k < length gs \<longrightarrow> \<not> equals E (hd (gs ! k)) (hd (gs ! Suc k)))) \<and>
         group' eqNumber [1, 2, 1, 1] = Some [[1], [2], [1, 1]]"
proof
  from group_while_runs[OF assms(1), of as "[]"] assms(4) obtain gs where
    gs: "chop_while (group_step E) as [] = Some gs" "concat gs = as"
    "\<forall>g\<in>set gs. g \<noteq> [] \<and> (\<forall>x\<in>set g. equals E (hd g) x)"
    "successively (\<lambda>g g'. \<not> equals E (hd g) (hd g')) gs" "gs \<noteq> []"
    by auto
  have "equals E x y" if "g \<in> set gs" "x \<in> set g" "y \<in> set g" for g x y
  proof -
    from gs(3) that have "equals E (hd g) x" "equals E (hd g) y"
      by simp_all
    with assms(2,3) show ?thesis
      by blast
  qed
  with gs(3) have "\<forall>g\<in>set gs. g \<noteq> [] \<and> (\<forall>x\<in>set g. \<forall>y\<in>set g. equals E x y)"
    by blast
  moreover from gs(4)
  have "\<forall>k. Suc k < length gs \<longrightarrow> \<not> equals E (hd (gs ! k)) (hd (gs ! Suc k))"
    by (simp add: successively_conv_nth)
  ultimately show "\<exists>gs. group' E as = Some gs \<and> gs \<noteq> [] \<and> concat gs = as \<and>
            (\<forall>g\<in>set gs. g \<noteq> [] \<and> (\<forall>x\<in>set g. \<forall>y\<in>set g. equals E x y)) \<and>
            (\<forall>k. Suc k < length gs \<longrightarrow> \<not> equals E (hd (gs ! k)) (hd (gs ! Suc k)))"
    using gs(1,2,5) by (simp add: group'_def chop_as_while[OF assms(4)])
next
  have a: "group_step eqNumber [1, 2, 1, 1] = ([1], [2, 1, 1])"
    by (simp add: group_step_runs eqNumber_def)
  have b: "group_step eqNumber [2, 1, 1] = ([2], [1, 1])"
    by (simp add: group_step_runs eqNumber_def)
  have c: "group_step eqNumber [1, 1] = ([1, 1], [])"
    by (simp add: group_step_runs eqNumber_def)
  show "group' eqNumber [1, 2, 1, 1] = Some [[1], [2], [1, 1]]"
    by (simp add: group'_def chop_def chop_while.simps isNonEmpty_def a b c)
qed

theorem group_partitions_witness:
  "\<exists>gs. group' eqNumber [1, 2, 1, 1] = Some gs \<and> gs = [[1], [2], [1, 1]] \<and>
     concat gs = [1, 2, 1, 1] \<and>
     (\<forall>g\<in>set gs. g \<noteq> [] \<and> (\<forall>x\<in>set g. \<forall>y\<in>set g. equals eqNumber x y)) \<and>
     (\<forall>k. Suc k < length gs \<longrightarrow> \<not> equals eqNumber (hd (gs ! k)) (hd (gs ! Suc k)))"
  using group_partitions[of eqNumber "[1, 2, 1, 1]"]
  by (auto simp: eqNumber_def)

section \<open>sort\<close>























section \<open>modifyAt\<close>

lemma strict_eq_same: "strict_eq x y \<Longrightarrow> x = y"
  by (simp add: strict_eq_def)

lemma modifyAt_in_range:
  assumes "0 \<le> i" and "i < int (length as)"
  shows "modifyAt i f as =
    Some (if strict_eq (f (as ! nat i)) (as ! nat i) then Same as
          else Fresh (as[nat i := f (as ! nat i)]))"
  using assms
  by (simp add: modifyAt_def isOutOfBound_def Let_def fromReadonlyNonEmptyArray_def
      assign_in_range)

lemma modifyAt_out_of_range:
  "i < 0 \<or> i \<ge> int (length as) \<Longrightarrow> modifyAt i f as = None"
  by (simp add: modifyAt_def isOutOfBound_def)

text \<open>
  \<^bold>\<open>C4.\<close> As stated the claim fails where it says that \<^verbatim>\<open>modifyAt(i, identity)\<close> returns
  the same input sequence: the source decides with \<^verbatim>\<open>next === prev\<close>, which is false when
  the element is \<^verbatim>\<open>NaN\<close>, and then it builds and returns a new array.
\<close>

theorem modifyAt_identity_NaN_counterexample:
  "modifyAt 0 (\<lambda>a. a) [NaN, Val (1 :: int)] = Some (Fresh [NaN, Val 1]) \<and>
   modifyAt 0 (\<lambda>a. a) [NaN, Val (1 :: int)] \<noteq> Some (Same [NaN, Val 1])"
  by (simp add: modifyAt_def isOutOfBound_def strict_eq_def fromReadonlyNonEmptyArray_def
      assign_def)

text \<open>
  \<^bold>\<open>C4\<close>, amended. \<^verbatim>\<open>modifyAt(i, f)(as)\<close> is \<open>None\<close> exactly when \<open>i < 0\<close> or
  \<open>i \<ge> length as\<close>. Otherwise it is \<open>Some\<close> of a non-empty sequence; when \<open>f\<close> applied to
  the existing element is \<^verbatim>\<open>===\<close> to that element, the result is \<open>Some\<close> of the same array
  that was passed in; and \<^verbatim>\<open>modifyAt(i, identity)\<close> returns \<open>Some\<close> of a sequence with the
  input's elements, which is the input array itself unless the element at \<open>i\<close> is \<^verbatim>\<open>NaN\<close>,
  where it is a new array.
\<close>

theorem modifyAt_none_iff_out_of_bounds:
  "(modifyAt i f as = None \<longleftrightarrow> i < 0 \<or> i \<ge> int (length as)) \<and>
   (\<not> (i < 0 \<or> i \<ge> int (length as)) \<longrightarrow>
      (\<exists>r. modifyAt i f as = Some r \<and> array_of r \<noteq> [])) \<and>
   (\<not> (i < 0 \<or> i \<ge> int (length as)) \<and> strict_eq (f (as ! nat i)) (as ! nat i) \<longrightarrow>
      modifyAt i f as = Some (Same as)) \<and>
   (\<not> (i < 0 \<or> i \<ge> int (length as)) \<longrightarrow>
      modifyAt i (\<lambda>a. a) as = Some (if as ! nat i = NaN then Fresh as else Same as))"
proof (cases "i < 0 \<or> i \<ge> int (length as)")
  case True
  then show ?thesis
    by (simp add: modifyAt_out_of_range)
next
  case False
  then have "0 \<le> i" "i < int (length as)"
    by simp_all
  then have run: "modifyAt i g as =
      Some (if strict_eq (g (as ! nat i)) (as ! nat i) then Same as
            else Fresh (as[nat i := g (as ! nat i)]))" for g
    by (rule modifyAt_in_range)
  have identity: "modifyAt i (\<lambda>a. a) as = Some (if as ! nat i = NaN then Fresh as else Same as)"
    unfolding run list_update_id by (simp add: strict_eq_def)
  from \<open>0 \<le> i\<close> \<open>i < int (length as)\<close> have "as \<noteq> []"
    by auto
  then have "\<exists>r. modifyAt i f as = Some r \<and> array_of r \<noteq> []"
    by (simp add: run)
  moreover have "strict_eq (f (as ! nat i)) (as ! nat i) \<longrightarrow> modifyAt i f as = Some (Same as)"
    by (simp add: run)
  moreover have "modifyAt i f as \<noteq> None"
    by (simp add: run)
  ultimately show ?thesis
    using False identity by blast
qed

theorem modifyAt_none_iff_out_of_bounds_witness:
  "modifyAt (-1) (\<lambda>a. Val 0) [Val 10, Val 20, Val (30 :: int)] = None \<and>
   modifyAt 3 (\<lambda>a. Val 0) [Val 10, Val 20, Val (30 :: int)] = None \<and>
   modifyAt 1 (\<lambda>a. Val 0) [Val 10, Val 20, Val (30 :: int)] =
     Some (Fresh [Val 10, Val 0, Val 30]) \<and>
   modifyAt 1 (\<lambda>a. Val 20) [Val 10, Val 20, Val (30 :: int)] =
     Some (Same [Val 10, Val 20, Val 30]) \<and>
   modifyAt 2 (\<lambda>a. a) [Val 10, Val 20, Val (30 :: int)] = Some (Same [Val 10, Val 20, Val 30]) \<and>
   modifyAt 1 (\<lambda>a. a) [Val 10, NaN, Val (30 :: int)] = Some (Fresh [Val 10, NaN, Val 30])"
proof -
  have "modifyAt 1 (\<lambda>a. Val 0) [Val 10, Val 20, Val (30 :: int)] =
      Some (Fresh [Val 10, Val 0, Val 30])"
    by (simp add: modifyAt_def isOutOfBound_def strict_eq_def fromReadonlyNonEmptyArray_def
        assign_def)
  then show ?thesis
    using modifyAt_none_iff_out_of_bounds[of "-1" "\<lambda>a. Val 0" "[Val 10, Val 20, Val (30 :: int)]"]
      modifyAt_none_iff_out_of_bounds[of 3 "\<lambda>a. Val 0" "[Val 10, Val 20, Val (30 :: int)]"]
      modifyAt_none_iff_out_of_bounds[of 1 "\<lambda>a. Val 20" "[Val 10, Val 20, Val (30 :: int)]"]
      modifyAt_none_iff_out_of_bounds[of 2 "\<lambda>a. Val 0" "[Val 10, Val 20, Val (30 :: int)]"]
      modifyAt_none_iff_out_of_bounds[of 1 "\<lambda>a. Val 0" "[Val 10, NaN, Val (30 :: int)]"]
    by (simp add: strict_eq_def)
qed

text \<open>
  \<^bold>\<open>C10.\<close> For a non-empty \<open>as\<close> and an index \<open>i\<close> with \<open>0 \<le> i < length as\<close>, when
  \<^verbatim>\<open>modifyAt(i, f)(as)\<close> returns \<open>Some\<close> of a sequence, that sequence has the length of
  \<open>as\<close>, holds \<open>f (as[i])\<close> at position \<open>i\<close>, and agrees with \<open>as\<close> at every other position.
\<close>

theorem modifyAt_frame:
  assumes "as \<noteq> []" and "0 \<le> i" and "i < int (length as)" and "modifyAt i f as = Some r"
  shows "length (array_of r) = length as \<and> array_of r ! nat i = f (as ! nat i) \<and>
         (\<forall>j<length as. j \<noteq> nat i \<longrightarrow> array_of r ! j = as ! j)"
proof -
  from assms(2,3) have "nat i < length as"
    by simp
  moreover from assms(4) have
    "r = (if strict_eq (f (as ! nat i)) (as ! nat i) then Same as
          else Fresh (as[nat i := f (as ! nat i)]))"
    by (simp add: modifyAt_in_range[OF assms(2,3)])
  ultimately show ?thesis
    by (auto dest: strict_eq_same)
qed

theorem modifyAt_frame_witness:
  "modifyAt 1 (\<lambda>a. Val 40) [Val 10, Val 20, Val (30 :: int)] =
     Some (Fresh [Val 10, Val 40, Val 30]) \<and>
   length (array_of (Fresh [Val 10, Val 40, Val (30 :: int)])) =
     length [Val 10, Val 20, Val (30 :: int)] \<and>
   array_of (Fresh [Val 10, Val 40, Val (30 :: int)]) ! nat 1 = Val 40 \<and>
   array_of (Fresh [Val 10, Val 40, Val (30 :: int)]) ! 0 = [Val 10, Val 20, Val 30] ! 0 \<and>
   array_of (Fresh [Val 10, Val 40, Val (30 :: int)]) ! 2 = [Val 10, Val 20, Val 30] ! 2"
proof -
  have run: "modifyAt 1 (\<lambda>a. Val 40) [Val 10, Val 20, Val (30 :: int)] =
      Some (Fresh [Val 10, Val 40, Val 30])"
    by (simp add: modifyAt_def isOutOfBound_def strict_eq_def fromReadonlyNonEmptyArray_def
        assign_def)
  from modifyAt_frame[OF _ _ _ run] show ?thesis
    using run by simp
qed

section \<open>zip and unzip\<close>

lemma zipWith_map2:
  assumes "as \<noteq> []" and "bs \<noteq> []"
  shows "zipWith bs f as = map2 f as bs"
proof -
  let ?len = "min (length as) (length bs)"
  from assms have pos: "0 < ?len"
    by simp
  have "zipWith bs f as = [f (as ! 0) (bs ! 0)] @ map (\<lambda>i. f (as ! i) (bs ! i)) [1..<?len]"
    using pos unfolding zipWith_def Let_def for_loop_fold
    by (intro fold_assign) (simp_all add: Suc_le_eq)
  also have "\<dots> = map (\<lambda>i. f (as ! i) (bs ! i)) [0..<?len]"
    using pos map_from_0[of ?len "\<lambda>i. f (as ! i) (bs ! i)"] by simp
  also have "\<dots> = map2 f as bs"
    by (rule nth_equalityI) simp_all
  finally show ?thesis .
qed

lemma zip'_zip:
  assumes "as \<noteq> []" and "bs \<noteq> []"
  shows "zip' bs as = zip as bs"
proof -
  from assms have "zip' bs as = map2 tuple as bs"
    by (simp add: zip'_def zipWith_map2)
  also have "\<dots> = zip as bs"
    by (rule nth_equalityI) (simp_all add: tuple_def)
  finally show ?thesis .
qed

lemma unzip_maps:
  assumes "ps \<noteq> []"
  shows "unzip ps = (map fst ps, map snd ps)"
proof -
  from assms have pos: "0 < length ps"
    by simp
  have a: "fold (\<lambda>k cs. assign cs k (fst (ps ! k))) [1..<length ps] [fst (ps ! 0)] =
      [fst (ps ! 0)] @ map (\<lambda>k. fst (ps ! k)) [1..<length ps]"
    using pos by (intro fold_assign) (simp_all add: Suc_le_eq)
  have b: "fold (\<lambda>k cs. assign cs k (snd (ps ! k))) [1..<length ps] [snd (ps ! 0)] =
      [snd (ps ! 0)] @ map (\<lambda>k. snd (ps ! k)) [1..<length ps]"
    using pos by (intro fold_assign) (simp_all add: Suc_le_eq)
  have "unzip ps =
      (map (\<lambda>k. fst (ps ! k)) [0..<length ps], map (\<lambda>k. snd (ps ! k)) [0..<length ps])"
    unfolding unzip_def Let_def for_loop_fold fold_pair a b
    using pos map_from_0[of "length ps" "\<lambda>k. fst (ps ! k)"]
      map_from_0[of "length ps" "\<lambda>k. snd (ps ! k)"]
    by simp
  also have "\<dots> = (map fst ps, map snd ps)"
    by (auto intro: nth_equalityI)
  finally show ?thesis .
qed

text \<open>
  \<^bold>\<open>C9.\<close> For a non-empty sequence \<open>ps\<close> of pairs, both components of \<^verbatim>\<open>unzip(ps)\<close> have
  the length of \<open>ps\<close>, and zipping them back (\<^verbatim>\<open>zip(second)(first)\<close>) gives \<open>ps\<close>. For
  non-empty \<open>as\<close> and \<open>bs\<close> of equal length, \<^verbatim>\<open>unzip(zip(bs)(as))\<close> is the pair \<open>(as, bs)\<close>.
\<close>

theorem unzip_inverts_zip:
  "(ps \<noteq> [] \<longrightarrow>
      length (fst (unzip ps)) = length ps \<and> length (snd (unzip ps)) = length ps \<and>
      zip' (snd (unzip ps)) (fst (unzip ps)) = ps) \<and>
   (as \<noteq> [] \<and> bs \<noteq> [] \<and> length as = length bs \<longrightarrow> unzip (zip' bs as) = (as, bs))"
proof (intro conjI impI)
  assume "ps \<noteq> []"
  then show "length (fst (unzip ps)) = length ps" "length (snd (unzip ps)) = length ps"
    "zip' (snd (unzip ps)) (fst (unzip ps)) = ps"
    by (simp_all add: unzip_maps zip'_zip zip_map_fst_snd)
next
  assume "as \<noteq> [] \<and> bs \<noteq> [] \<and> length as = length bs"
  then show "unzip (zip' bs as) = (as, bs)"
    by (simp add: zip'_zip unzip_maps)
qed

theorem unzip_inverts_zip_witness:
  "unzip [(1 :: int, ''a''), (2, ''b''), (3, ''c'')] = ([1, 2, 3], [''a'', ''b'', ''c'']) \<and>
   zip' (snd (unzip [(1 :: int, ''a''), (2, ''b''), (3, ''c'')]))
        (fst (unzip [(1 :: int, ''a''), (2, ''b''), (3, ''c'')])) =
     [(1, ''a''), (2, ''b''), (3, ''c'')] \<and>
   unzip (zip' [''a'', ''b'', ''c''] [1 :: int, 2, 3]) = ([1, 2, 3], [''a'', ''b'', ''c''])"
  using unzip_inverts_zip[of "[(1 :: int, ''a''), (2, ''b''), (3, ''c'')]" "[1 :: int, 2, 3]"
      "[''a'', ''b'', ''c'']"]
  by (simp add: unzip_maps)

section \<open>chain and of\<close>

lemma chainWithIndex_concat:
  assumes "as \<noteq> []"
  shows "chainWithIndex f as = concat (map (\<lambda>i. f i (as ! i)) [0..<length as])"
proof -
  from assms have "[0..<length as] = 0 # [1..<length as]"
    by (simp add: upt_conv_Cons)
  then show ?thesis
    by (simp add: chainWithIndex_def fromReadonlyNonEmptyArray_def head_def extract'_def
        for_loop_fold fold_append_out)
qed

text \<open>
  \<^bold>\<open>C5.\<close> The identity laws of the monad of \<^verbatim>\<open>of\<close> and \<^verbatim>\<open>chain\<close>: for a non-empty \<open>x\<close>,
  \<^verbatim>\<open>chain(of)(x)\<close> is \<open>x\<close>; and for every \<open>a\<close> and \<open>f\<close>, \<^verbatim>\<open>chain(f)(of(a))\<close> is \<open>f a\<close> (which
  holds whatever \<open>f\<close> returns, so also for every \<open>f\<close> that returns non-empty sequences).
\<close>

theorem chain_identity_laws:
  "(x \<noteq> [] \<longrightarrow> chain' of' x = x) \<and> chain' f (of' a) = f a"
proof
  show "x \<noteq> [] \<longrightarrow> chain' of' x = x"
  proof
    assume "x \<noteq> []"
    then have "chain' of' x = concat (map (\<lambda>i. [x ! i]) [0..<length x])"
      by (simp add: chain'_def chainWithIndex_concat of'_def)
    also have "\<dots> = map (\<lambda>i. x ! i) [0..<length x]"
      by (induction "[0..<length x]") (simp_all add: concat_map_singleton)
    also have "\<dots> = x"
      by (rule map_nth)
    finally show "chain' of' x = x" .
  qed
  show "chain' f (of' a) = f a"
    by (simp add: chain'_def of'_def chainWithIndex_concat)
qed

theorem chain_identity_laws_witness:
  "chain' of' [1, 2, 3 :: int] = [1, 2, 3] \<and>
   chain' (\<lambda>n. [n, n + 1]) (of' (5 :: int)) = [5, 6]"
  using chain_identity_laws[of "[1, 2, 3 :: int]" "\<lambda>n. [n, n + 1]" 5]
  by simp

section \<open>foldMap and concatAll\<close>

lemma foldMap_foldl:
  "fa \<noteq> [] \<Longrightarrow> foldMap S f fa = foldl (\<lambda>s a. combine S s (f a)) (f (hd fa)) (tl fa)"
  by (simp add: foldMap_def reduce_from_def combine_def slice_from_drop hd_conv_nth drop_Suc)

text \<open>
  \<^bold>\<open>C6.\<close> For a combine \<open>S\<close> (associative or not), a function \<open>f\<close> and a non-empty sequence,
  \<^verbatim>\<open>foldMap(S)(f)\<close> is the left-nested combination of the images in left-to-right order:
  it starts from \<open>f\<close> of the first element and combines the images of the remaining ones
  into it one by one, so that appending an element \<open>a\<close> combines \<open>f a\<close> onto the right of
  the result, and on four elements it is \<open>((f w \<cdot> f x) \<cdot> f y) \<cdot> f z\<close>. \<^verbatim>\<open>concatAll(S)\<close> returns
  (no error on a non-empty sequence) what \<^verbatim>\<open>foldMap(S)\<close> of the identity function
  returns: the left fold of the whole sequence through \<open>S\<close>, started from the first
  element and not from an identity element.
\<close>

theorem foldMap_left_to_right:
  "(fa \<noteq> [] \<longrightarrow>
      foldMap S f fa = foldl (\<lambda>s a. combine S s (f a)) (f (hd fa)) (tl fa) \<and>
      foldMap S f (fa @ [a]) = combine S (foldMap S f fa) (f a)) \<and>
   foldMap S f [a] = f a \<and>
   foldMap S f [w, x, y, z] =
     combine S (combine S (combine S (f w) (f x)) (f y)) (f z) \<and>
   (ss \<noteq> [] \<longrightarrow>
      concatAll S ss = Inr (foldMap S (\<lambda>s. s) ss) \<and>
      concatAll S ss = Inr (foldl (combine S) (hd ss) (tl ss)))"
proof (intro conjI impI)
  assume "fa \<noteq> []"
  then show "foldMap S f fa = foldl (\<lambda>s a. combine S s (f a)) (f (hd fa)) (tl fa)"
    by (rule foldMap_foldl)
  from \<open>fa \<noteq> []\<close> show "foldMap S f (fa @ [a]) = combine S (foldMap S f fa) (f a)"
    by (cases fa) (simp_all add: foldMap_foldl)
next
  show "foldMap S f [a] = f a"
    by (simp add: foldMap_foldl)
  show "foldMap S f [w, x, y, z] =
      combine S (combine S (combine S (f w) (f x)) (f y)) (f z)"
    by (simp add: foldMap_foldl)
next
  assume "ss \<noteq> []"
  then obtain s0 rest where ss: "ss = s0 # rest"
    by (cases ss) simp_all
  have "(\<lambda>a acc. concatS S acc a) = combine S"
    by (simp add: fun_eq_iff combine_def)
  then show all: "concatAll S ss = Inr (foldl (combine S) (hd ss) (tl ss))"
    by (simp add: ss concatAll_def reduce1_def)
  show "concatAll S ss = Inr (foldMap S (\<lambda>s. s) ss)"
    unfolding all using \<open>ss \<noteq> []\<close> by (simp add: foldMap_foldl)
qed

theorem foldMap_left_to_right_witness:
  "foldMap getSemigroup of' [1, 2, 3 :: int] = [1, 2, 3] \<and>
   foldMap getSemigroup of' ([1, 2, 3 :: int] @ [4]) = foldMap getSemigroup of' [1, 2, 3] @ [4] \<and>
   concatAll getSemigroup [[1, 2], [3], [4, 5 :: int]] = Inr [1, 2, 3, 4, 5] \<and>
   concatAll getSemigroup [[1, 2], [3], [4, 5 :: int]] =
     Inr (foldMap getSemigroup (\<lambda>s. s) [[1, 2], [3], [4, 5]])"
  using foldMap_left_to_right[where fa = "[1, 2, 3 :: int]" and S = getSemigroup and f = of'
      and a = 4 and w = 1 and x = 2 and y = 3 and z = 4
      and ss = "[[1, 2], [3], [4, 5 :: int]]"]
  by (auto simp: combine_def getSemigroup_def concatW_def of'_def)

end
